theory Spec2Isabelle
  imports Complex_Main "HOL-Library.Multiset"
begin

section \<open>Profiler events and kernel statistics\<close>

text \<open>
  The aggregation core of \<^verbatim>\<open>libtorch_demo/qwen3_infer.cpp\<close>: \<^verbatim>\<open>format_shape\<close>,
  \<^verbatim>\<open>aggregate_kernel_stats\<close> and \<^verbatim>\<open>print_kernel_stats\<close>.

  Numbers. The C++ \<^verbatim>\<open>double\<close> fields are modelled as \<^typ>\<open>real\<close>: the durations are
  differences of integer microsecond timestamps, so every value the code adds, compares or
  takes the maximum of is an integer, and on integers below \<open>2^53\<close> the arithmetic of
  \<^verbatim>\<open>double\<close> is exact. Where a property depends on how larger sums round (the order
  of the additions, C4), the addition of \<^verbatim>\<open>double\<close> is a parameter of the update:
  \<open>update_stat_fl\<close> below. The \<^verbatim>\<open>int64_t\<close>
  call counter is an \<^typ>\<open>int\<close>: it is incremented once per closed range and cannot reach
  \<open>2^63\<close> on a finite event list that fits in memory.
\<close>

subsection \<open>The event type of the profiler\<close>

text \<open>
  Modelled from the spec: the enumeration \<^verbatim>\<open>EventKind\<close> belongs to the profiler library
  and is not part of the sources. The code tests for \<^verbatim>\<open>PushRange\<close> (the spec's Enter)
  and \<^verbatim>\<open>PopRange\<close> (the spec's Exit) and ignores every other kind; the other kinds of
  the library stand for those.
\<close>

datatype EventKind = Mark | PushRange | PopRange | MemoryAlloc

text \<open>
  Modelled from the spec: the event type \<^verbatim>\<open>LegacyEvent\<close> belongs to the profiler library
  and is not part of the sources. An event carries its kind, its name, an integer
  timestamp in microseconds and the list of input shapes, read by \<^verbatim>\<open>kind()\<close>,
  \<^verbatim>\<open>name()\<close> and \<^verbatim>\<open>shapes()\<close>.
\<close>

record LegacyEvent =
  kind :: EventKind
  name :: string
  timestamp_us :: int
  shapes :: "int list list"

text \<open>
  Modelled from the spec: \<^verbatim>\<open>start->cpuElapsedUs(event)\<close> is the library's elapsed time
  from \<^verbatim>\<open>start\<close> to \<^verbatim>\<open>event\<close>; the spec gives it as
  \<^verbatim>\<open>exit.timestamp_us - enter.timestamp_us\<close>.
\<close>

definition cpuElapsedUs :: "LegacyEvent \<Rightarrow> LegacyEvent \<Rightarrow> real" where
  "cpuElapsedUs s e = real_of_int (timestamp_us e - timestamp_us s)"

subsection \<open>\<^verbatim>\<open>KernelStat\<close> and \<^verbatim>\<open>format_shape\<close>\<close>

record KernelStat =
  total_us :: real
  self_us :: real
  max_us :: real
  calls :: int
  sample_shape :: string

text \<open>The value-initialised \<^verbatim>\<open>KernelStat\<close> that \<^verbatim>\<open>stats[kernel_name]\<close> inserts for a new key.\<close>

definition KernelStat0 :: KernelStat where
  "KernelStat0 = \<lparr>total_us = 0, self_us = 0, max_us = 0, calls = 0, sample_shape = []\<rparr>"

type_synonym stats_map = "string \<rightharpoonup> KernelStat"

text \<open>Decimal rendering of an \<^verbatim>\<open>int64_t\<close> by \<^verbatim>\<open>operator<<\<close>.\<close>

definition digit_char :: "nat \<Rightarrow> char" where
  "digit_char d = ''0123456789'' ! d"

fun nat_digits :: "nat \<Rightarrow> string" where
  "nat_digits n =
     (if n < 10 then [digit_char n] else nat_digits (n div 10) @ [digit_char (n mod 10)])"

declare nat_digits.simps [simp del]

definition int_digits :: "int \<Rightarrow> string" where
  "int_digits i = (if i < 0 then CHR ''-'' # nat_digits (nat (- i)) else nat_digits (nat i))"

text \<open>The loop of \<^verbatim>\<open>format_shape\<close>: an \<^verbatim>\<open>x\<close> before every dimension but the first.\<close>

fun join_dims :: "int list \<Rightarrow> string" where
  "join_dims [] = []"
| "join_dims [d] = int_digits d"
| "join_dims (d # ds) = int_digits d @ CHR ''x'' # join_dims ds"

definition format_shape :: "int list list \<Rightarrow> string" where
  "format_shape shps =
     (case shps of
        [] \<Rightarrow> []
      | dims # _ \<Rightarrow> if dims = [] then [] else CHR ''['' # join_dims dims @ '']'')"

subsection \<open>\<^verbatim>\<open>aggregate_kernel_stats\<close>\<close>

record ActiveRange =
  start :: LegacyEvent
  child_time_us :: real

text \<open>
  What the body of the \<^verbatim>\<open>PopRange\<close> branch computes from the popped range and the closing
  event before it touches the table: the spec's resolved interval.
\<close>

record ResolvedInterval =
  iv_name :: string
  iv_shape :: string
  inclusive_us :: real
  exclusive_us :: real

definition close_range :: "ActiveRange \<Rightarrow> LegacyEvent \<Rightarrow> ResolvedInterval" where
  "close_range active event =
     (let inclusive0 = cpuElapsedUs (start active) event;
          inclusive = (if inclusive0 < 0 then 0 else inclusive0);
          exclusive0 = inclusive - child_time_us active;
          exclusive = (if exclusive0 < 0 then 0 else exclusive0)
      in \<lparr>iv_name = name (start active),
          iv_shape = format_shape (shapes (start active)),
          inclusive_us = inclusive,
          exclusive_us = exclusive\<rparr>)"

text \<open>
  The update of the table entry. \<^verbatim>\<open>stats[kernel_name]\<close> inserts a value-initialised
  entry when the key is new. The shape is adopted only while \<^verbatim>\<open>sample_shape\<close> is empty.
\<close>

definition stat_at :: "stats_map \<Rightarrow> string \<Rightarrow> KernelStat" where
  "stat_at stats k = (case stats k of None \<Rightarrow> KernelStat0 | Some s \<Rightarrow> s)"

definition update_stat :: "KernelStat \<Rightarrow> ResolvedInterval \<Rightarrow> KernelStat" where
  "update_stat stat iv =
     \<lparr>total_us = total_us stat + inclusive_us iv,
      self_us = self_us stat + exclusive_us iv,
      max_us = max (max_us stat) (inclusive_us iv),
      calls = calls stat + 1,
      sample_shape = (if sample_shape stat = [] then iv_shape iv else sample_shape stat)\<rparr>"

definition record_interval :: "stats_map \<Rightarrow> ResolvedInterval \<Rightarrow> stats_map" where
  "record_interval stats iv =
     stats(iv_name iv \<mapsto> update_stat (stat_at stats (iv_name iv)) iv)"

text \<open>
  The same update with the addition of \<^verbatim>\<open>double\<close> in lines 108-109 as a parameter
  \<open>fadd\<close>, for what depends on rounding. The maximum and the counter do not round. With
  the exact addition this is \<open>update_stat\<close> (\<open>update_stat_fl_exact\<close> below).
\<close>

definition update_stat_fl ::
  "(real \<Rightarrow> real \<Rightarrow> real) \<Rightarrow> KernelStat \<Rightarrow> ResolvedInterval \<Rightarrow> KernelStat" where
  "update_stat_fl fadd stat iv =
     \<lparr>total_us = fadd (total_us stat) (inclusive_us iv),
      self_us = fadd (self_us stat) (exclusive_us iv),
      max_us = max (max_us stat) (inclusive_us iv),
      calls = calls stat + 1,
      sample_shape = (if sample_shape stat = [] then iv_shape iv else sample_shape stat)\<rparr>"

definition record_interval_fl ::
  "(real \<Rightarrow> real \<Rightarrow> real) \<Rightarrow> stats_map \<Rightarrow> ResolvedInterval \<Rightarrow> stats_map" where
  "record_interval_fl fadd stats iv =
     stats(iv_name iv \<mapsto> update_stat_fl fadd (stat_at stats (iv_name iv)) iv)"

text \<open>
  \<^verbatim>\<open>if (!stack.empty()) stack.back().child_time_us += inclusive_us\<close>. The stack is a list
  whose head is \<^verbatim>\<open>stack.back()\<close>.
\<close>

fun add_child_time :: "real \<Rightarrow> ActiveRange list \<Rightarrow> ActiveRange list" where
  "add_child_time t [] = []"
| "add_child_time t (parent # stack) =
     parent\<lparr>child_time_us := child_time_us parent + t\<rparr> # stack"

text \<open>The inner loop over the events of one thread, from a given stack and table.\<close>

fun thread_loop ::
  "ActiveRange list \<Rightarrow> stats_map \<Rightarrow> LegacyEvent list \<Rightarrow> ActiveRange list \<times> stats_map" where
  "thread_loop stack stats [] = (stack, stats)"
| "thread_loop stack stats (event # events) =
     (if kind event = PushRange then
        thread_loop (\<lparr>start = event, child_time_us = 0\<rparr> # stack) stats events
      else if kind event = PopRange then
        (case stack of
           [] \<Rightarrow> thread_loop [] stats events
         | active # stack' \<Rightarrow>
             let iv = close_range active event
             in thread_loop (add_child_time (inclusive_us iv) stack')
                  (record_interval stats iv) events)
      else thread_loop stack stats events)"

text \<open>The outer loop: every thread starts from an empty stack; the table is shared.\<close>

definition aggregate_kernel_stats :: "LegacyEvent list list \<Rightarrow> stats_map \<Rightarrow> stats_map" where
  "aggregate_kernel_stats event_lists stats =
     foldl (\<lambda>st thread_events. snd (thread_loop [] st thread_events)) stats event_lists"

text \<open>
  The resolver on its own: the same loop, listing the intervals it closes instead of
  recording them. \<open>thread_loop_resolve\<close> below shows that the loop of the code records
  exactly these intervals, in this order.
\<close>

fun resolve_loop ::
  "ActiveRange list \<Rightarrow> LegacyEvent list \<Rightarrow> ActiveRange list \<times> ResolvedInterval list" where
  "resolve_loop stack [] = (stack, [])"
| "resolve_loop stack (event # events) =
     (if kind event = PushRange then
        resolve_loop (\<lparr>start = event, child_time_us = 0\<rparr> # stack) events
      else if kind event = PopRange then
        (case stack of
           [] \<Rightarrow> resolve_loop [] events
         | active # stack' \<Rightarrow>
             let iv = close_range active event;
                 r = resolve_loop (add_child_time (inclusive_us iv) stack') events
             in (fst r, iv # snd r))
      else resolve_loop stack events)"

definition resolve_thread :: "LegacyEvent list \<Rightarrow> ResolvedInterval list" where
  "resolve_thread thread_events = snd (resolve_loop [] thread_events)"

subsection \<open>\<^verbatim>\<open>print_kernel_stats\<close>\<close>

text \<open>
  What is written to the output stream, one element per \<^verbatim>\<open>std::endl\<close>. A data row keeps
  its fields (the name cut to 48 characters, calls, total, self, average, maximum, shape);
  the fixed-point rendering of the numbers is not modelled.
\<close>

datatype out_line =
  Text string
| Row string int real real real real string
| SelfTotal real

fun is_row :: "out_line \<Rightarrow> bool" where
  "is_row (Row _ _ _ _ _ _ _) = True"
| "is_row _ = False"

fun row_total :: "out_line \<Rightarrow> real" where
  "row_total (Row _ _ t _ _ _ _) = t"
| "row_total _ = 0"

definition pad_right :: "nat \<Rightarrow> string \<Rightarrow> string" where
  "pad_right w s = s @ replicate (w - length s) CHR '' ''"

definition pad_left :: "nat \<Rightarrow> string \<Rightarrow> string" where
  "pad_left w s = replicate (w - length s) CHR '' '' @ s"

definition header_line :: string where
  "header_line =
     pad_right 48 ''Kernel'' @ pad_left 10 ''Calls'' @ pad_left 14 ''Total(us)'' @
     pad_left 14 ''Self(us)'' @ pad_left 12 ''Avg(us)'' @ pad_left 12 ''Max(us)'' @
     pad_left 16 ''Shape''"

definition row_of :: "string \<times> KernelStat \<Rightarrow> out_line" where
  "row_of entry =
     (let stat = snd entry;
          avg_us = (if calls stat > 0 then total_us stat / real_of_int (calls stat) else 0)
      in Row (take 48 (fst entry)) (calls stat) (total_us stat) (self_us stat) avg_us
           (max_us stat) (sample_shape stat))"

text \<open>
  The table is an \<^verbatim>\<open>unordered_map\<close>; the function copies its entries, in the container's
  iteration order, into the vector \<^verbatim>\<open>ordered\<close>. The model takes that sequence of entries
  as its argument: \<open>entries_of stats es\<close> says that \<open>es\<close> lists the entries of \<open>stats\<close>,
  each key once, in some order.
\<close>

definition entries_of :: "stats_map \<Rightarrow> (string \<times> KernelStat) list \<Rightarrow> bool" where
  "entries_of stats es \<longleftrightarrow> distinct (map fst es) \<and> map_of es = stats"

text \<open>
  The comparator passed to \<^verbatim>\<open>std::sort\<close> (lines 130-132),
  \<^verbatim>\<open>lhs.second.total_us > rhs.second.total_us\<close>: \<open>lhs\<close> goes before \<open>rhs\<close> when its total
  is the larger one.
\<close>

definition by_total_desc :: "string \<times> KernelStat \<Rightarrow> string \<times> KernelStat \<Rightarrow> bool" where
  "by_total_desc lhs rhs \<longleftrightarrow> total_us (snd lhs) > total_us (snd rhs)"

text \<open>
  \<^verbatim>\<open>std::sort\<close> itself is a library routine and a parameter \<open>srt\<close> of the model, taking
  the comparator and the sequence. What the standard promises of it, for every comparator
  that is a strict weak ordering: the result is a permutation of the input in which no
  later element compares before an earlier one. The order among elements that compare
  equivalent is not determined. The promise does not mention totals or a direction: these
  come from the comparator that \<open>print_kernel_stats\<close> passes.
\<close>

definition strict_weak_order ::
  "(string \<times> KernelStat \<Rightarrow> string \<times> KernelStat \<Rightarrow> bool) \<Rightarrow> bool" where
  "strict_weak_order cmp \<longleftrightarrow>
     (\<forall>a. \<not> cmp a a) \<and>
     (\<forall>a b c. cmp a b \<and> cmp b c \<longrightarrow> cmp a c) \<and>
     (\<forall>a b c. \<not> cmp a b \<and> \<not> cmp b c \<longrightarrow> \<not> cmp a c)"

definition std_sort_spec ::
  "((string \<times> KernelStat \<Rightarrow> string \<times> KernelStat \<Rightarrow> bool) \<Rightarrow>
    (string \<times> KernelStat) list \<Rightarrow> (string \<times> KernelStat) list) \<Rightarrow> bool" where
  "std_sort_spec srt \<longleftrightarrow>
     (\<forall>cmp es. strict_weak_order cmp \<longrightarrow>
        mset (srt cmp es) = mset es \<and> sorted_wrt (\<lambda>l r. \<not> cmp r l) (srt cmp es))"

text \<open>A sorting routine that meets the promise: insertion sort with the comparator.\<close>

fun insert_by ::
  "(string \<times> KernelStat \<Rightarrow> string \<times> KernelStat \<Rightarrow> bool) \<Rightarrow>
   string \<times> KernelStat \<Rightarrow> (string \<times> KernelStat) list \<Rightarrow> (string \<times> KernelStat) list" where
  "insert_by cmp x [] = [x]"
| "insert_by cmp x (y # ys) = (if cmp x y then x # y # ys else y # insert_by cmp x ys)"

fun insertion_sort ::
  "(string \<times> KernelStat \<Rightarrow> string \<times> KernelStat \<Rightarrow> bool) \<Rightarrow>
   (string \<times> KernelStat) list \<Rightarrow> (string \<times> KernelStat) list" where
  "insertion_sort cmp [] = []"
| "insertion_sort cmp (x # xs) = insert_by cmp x (insertion_sort cmp xs)"

text \<open>Descending order of the totals: what \<open>by_total_desc\<close> makes of the promise.\<close>

definition total_desc :: "(string \<times> KernelStat) list \<Rightarrow> bool" where
  "total_desc es = sorted_wrt (\<lambda>l r. total_us (snd r) \<le> total_us (snd l)) es"

definition title_line :: string where
  "title_line = CHR 0x0A # ''Kernel CPU time summary (top 30 by inclusive time)''"

definition rule_line :: string where
  "rule_line = replicate 126 CHR ''-''"

definition print_kernel_stats ::
  "((string \<times> KernelStat \<Rightarrow> string \<times> KernelStat \<Rightarrow> bool) \<Rightarrow>
    (string \<times> KernelStat) list \<Rightarrow> (string \<times> KernelStat) list) \<Rightarrow>
   (string \<times> KernelStat) list \<Rightarrow> out_line list" where
  "print_kernel_stats srt entries =
     (if entries = [] then [Text ''No profiler events collected.'']
      else
        let ordered = srt by_total_desc entries;
            total_time = foldl (\<lambda>t entry. t + self_us (snd entry)) 0 ordered;
            limit = min 30 (length ordered)
        in [Text title_line, Text header_line, Text rule_line]
           @ map row_of (take limit ordered)
           @ [Text rule_line, SelfTotal total_time])"

subsection \<open>Notions used to state the properties\<close>

text \<open>The spec's notation for events: \<open>Enter(n, t)\<close> with its shapes, and \<open>Exit(n, t)\<close>.\<close>

definition Enter :: "string \<Rightarrow> int \<Rightarrow> int list list \<Rightarrow> LegacyEvent" where
  "Enter n t shp = \<lparr>kind = PushRange, name = n, timestamp_us = t, shapes = shp\<rparr>"

definition Exit :: "string \<Rightarrow> int \<Rightarrow> LegacyEvent" where
  "Exit n t = \<lparr>kind = PopRange, name = n, timestamp_us = t, shapes = []\<rparr>"

text \<open>
  \<open>stays_open n events\<close>: a range with \<open>n\<close> ranges open above it is not closed by
  \<open>events\<close>; every \<^verbatim>\<open>PopRange\<close> among them finds a range above it to close.
\<close>

fun stays_open :: "nat \<Rightarrow> LegacyEvent list \<Rightarrow> bool" where
  "stays_open n [] = True"
| "stays_open n (event # events) =
     (if kind event = PushRange then stays_open (Suc n) events
      else if kind event = PopRange then
        (case n of 0 \<Rightarrow> False | Suc m \<Rightarrow> stays_open m events)
      else stays_open n events)"

text \<open>The invariant of the stack, and what it gives for intervals and table entries.\<close>

definition frames_ok :: "ActiveRange list \<Rightarrow> bool" where
  "frames_ok stack \<longleftrightarrow> (\<forall>a \<in> set stack. 0 \<le> child_time_us a)"

definition interval_ok :: "ResolvedInterval \<Rightarrow> bool" where
  "interval_ok iv \<longleftrightarrow> 0 \<le> exclusive_us iv \<and> exclusive_us iv \<le> inclusive_us iv"

definition stat_ok :: "KernelStat \<Rightarrow> bool" where
  "stat_ok s \<longleftrightarrow>
     0 \<le> self_us s \<and> self_us s \<le> total_us s \<and> 0 \<le> max_us s \<and> max_us s \<le> total_us s"

text \<open>The shape of the first interval named \<open>k\<close> whose shape string is not empty.\<close>

definition first_nonempty_shape :: "string \<Rightarrow> ResolvedInterval list \<Rightarrow> string" where
  "first_nonempty_shape k ivs =
     (case filter (\<lambda>iv. iv_name iv = k \<and> iv_shape iv \<noteq> []) ivs of
        [] \<Rightarrow> []
      | iv # _ \<Rightarrow> iv_shape iv)"

text \<open>The numeric fields of an entry, and the update of \<open>update_stat\<close> on them.\<close>

definition num_fields :: "KernelStat \<Rightarrow> real \<times> real \<times> real \<times> int" where
  "num_fields s = (total_us s, self_us s, max_us s, calls s)"

fun num_step ::
  "ResolvedInterval \<Rightarrow> real \<times> real \<times> real \<times> int \<Rightarrow> real \<times> real \<times> real \<times> int" where
  "num_step iv (t, s, m, c) =
     (t + inclusive_us iv, s + exclusive_us iv, max m (inclusive_us iv), c + 1)"

text \<open>The intervals of a list that carry the name \<open>k\<close>.\<close>

definition named :: "string \<Rightarrow> ResolvedInterval list \<Rightarrow> ResolvedInterval list" where
  "named k ivs = filter (\<lambda>iv. iv_name iv = k) ivs"

text \<open>
  The standard model of a rounded addition: the result is off by at most the fraction
  \<open>u\<close> of the exact sum. For \<^verbatim>\<open>double\<close> with rounding to nearest, \<open>u\<close> is \<open>2^-53\<close>, as long
  as the sum does not overflow.
\<close>

definition rounds_within :: "real \<Rightarrow> (real \<Rightarrow> real \<Rightarrow> real) \<Rightarrow> bool" where
  "rounds_within u fadd \<longleftrightarrow> 0 \<le> u \<and> (\<forall>a b. \<bar>fadd a b - (a + b)\<bar> \<le> u * \<bar>a + b\<bar>)"

text \<open>
  An addition that rounds as \<^verbatim>\<open>double\<close> does at one sum: \<open>2^53 + 1\<close> is not a
  \<^verbatim>\<open>double\<close> and rounds to \<open>2^53\<close>. Every other sum is exact here.
\<close>

definition fadd_53 :: "real \<Rightarrow> real \<Rightarrow> real" where
  "fadd_53 a b = (if a + b = 9007199254740993 then 9007199254740992 else a + b)"

text \<open>A table of forty entries with distinct names, each with self time 1.\<close>

definition forty_entries :: "(string \<times> KernelStat) list" where
  "forty_entries =
     map (\<lambda>i. (nat_digits i, KernelStat0\<lparr>total_us := real i, self_us := 1\<rparr>)) [0..<40]"

lemmas ev_simps = Enter_def Exit_def resolve_thread_def close_range_def cpuElapsedUs_def Let_def

lemmas shape_simps = format_shape_def int_digits_def nat_digits.simps digit_char_def

lemmas table_simps =
  aggregate_kernel_stats_def record_interval_def update_stat_def stat_at_def KernelStat0_def

section \<open>Properties\<close>

subsection \<open>The loop over one thread\<close>

lemma thread_loop_resolve:
  "thread_loop stack stats events =
     (fst (resolve_loop stack events), foldl record_interval stats (snd (resolve_loop stack events)))"
proof (induction events arbitrary: stack stats)
  case Nil
  then show ?case by simp
next
  case (Cons event events)
  then show ?case by (cases stack) (simp_all add: Let_def)
qed

lemma resolve_loop_append:
  "resolve_loop stack (xs @ ys) =
     (fst (resolve_loop (fst (resolve_loop stack xs)) ys),
      snd (resolve_loop stack xs) @ snd (resolve_loop (fst (resolve_loop stack xs)) ys))"
proof (induction xs arbitrary: stack)
  case Nil
  then show ?case by simp
next
  case (Cons event events)
  then show ?case by (cases stack) (simp_all add: Let_def)
qed

lemma inclusive_close_range_nonneg: "0 \<le> inclusive_us (close_range active event)"
  by (simp add: close_range_def Let_def)

lemma close_range_ok:
  "0 \<le> child_time_us active \<Longrightarrow> interval_ok (close_range active event)"
  by (simp add: close_range_def interval_ok_def Let_def)

lemma frames_ok_add_child_time:
  "0 \<le> t \<Longrightarrow> frames_ok stack \<Longrightarrow> frames_ok (add_child_time t stack)"
  by (cases stack) (simp_all add: frames_ok_def)

lemma resolve_loop_ok:
  "frames_ok stack \<Longrightarrow>
     frames_ok (fst (resolve_loop stack events)) \<and>
     (\<forall>iv \<in> set (snd (resolve_loop stack events)). interval_ok iv)"
proof (induction events arbitrary: stack)
  case Nil
  then show ?case by simp
next
  case (Cons event events)
  show ?case
  proof (cases "kind event = PushRange")
    case True
    have "frames_ok (\<lparr>start = event, child_time_us = 0\<rparr> # stack)"
      using Cons.prems by (simp add: frames_ok_def)
    from Cons.IH[OF this] True show ?thesis by simp
  next
    case notpush: False
    show ?thesis
    proof (cases "kind event = PopRange")
      case False
      with notpush Cons.IH[OF Cons.prems] show ?thesis by simp
    next
      case True
      show ?thesis
      proof (cases stack)
        case Nil
        with notpush True Cons.IH[of "[]"] show ?thesis by (simp add: frames_ok_def)
      next
        case stk: (Cons active stack')
        have a: "0 \<le> child_time_us active" and s: "frames_ok stack'"
          using Cons.prems stk by (simp_all add: frames_ok_def)
        have "frames_ok (add_child_time (inclusive_us (close_range active event)) stack')"
          using s by (simp add: frames_ok_add_child_time inclusive_close_range_nonneg)
        from Cons.IH[OF this] notpush True stk a
        show ?thesis by (simp add: Let_def close_range_ok)
      qed
    qed
  qed
qed

lemma add_child_time_append:
  "add_child_time t (upper @ lower) =
     (if upper = [] then add_child_time t lower else add_child_time t upper @ lower)"
  by (cases upper) simp_all

lemma length_add_child_time [simp]: "length (add_child_time t stack) = length stack"
  by (cases stack) simp_all

lemma resolve_loop_local:
  "stays_open (length upper) events \<Longrightarrow>
     snd (resolve_loop (upper @ lower1) events) = snd (resolve_loop (upper @ lower2) events)"
proof (induction events arbitrary: upper lower1 lower2)
  case Nil
  then show ?case by simp
next
  case (Cons event events)
  show ?case
  proof (cases "kind event = PushRange")
    case True
    with Cons.prems have "stays_open (length (\<lparr>start = event, child_time_us = 0\<rparr> # upper)) events"
      by simp
    from Cons.IH[OF this] True show ?thesis by simp
  next
    case notpush: False
    show ?thesis
    proof (cases "kind event = PopRange")
      case False
      with notpush Cons show ?thesis by simp
    next
      case True
      with notpush Cons.prems obtain active upper' where ab: "upper = active # upper'"
        and so: "stays_open (length upper') events"
        by (cases upper) auto
      let ?t = "inclusive_us (close_range active event)"
      show ?thesis
      proof (cases "upper' = []")
        case True
        with so have "stays_open (length ([]::ActiveRange list)) events" by simp
        from Cons.IH[OF this, of "add_child_time ?t lower1" "add_child_time ?t lower2"]
        show ?thesis using notpush \<open>kind event = PopRange\<close> ab True by (simp add: Let_def)
      next
        case False
        from so have "stays_open (length (add_child_time ?t upper')) events" by simp
        from Cons.IH[OF this, of lower1 lower2]
        show ?thesis using notpush \<open>kind event = PopRange\<close> ab False
          by (simp add: Let_def add_child_time_append)
      qed
    qed
  qed
qed


lemma resolve_loop_count:
  "length (snd (resolve_loop stack events)) + length (fst (resolve_loop stack events)) =
     length stack + length (filter (\<lambda>e. kind e = PushRange) events)"
proof (induction events arbitrary: stack)
  case Nil
  then show ?case by simp
next
  case (Cons event events)
  show ?case
  proof (cases stack)
    case Nil
    with Cons.IH[of "[]"] Cons.IH[of "[\<lparr>start = event, child_time_us = 0\<rparr>]"]
    show ?thesis by simp
  next
    case stk: (Cons active stack')
    with Cons.IH[of "\<lparr>start = event, child_time_us = 0\<rparr> # stack"] Cons.IH[of stack]
      Cons.IH[of "add_child_time (inclusive_us (close_range active event)) stack'"]
    show ?thesis by (simp add: Let_def)
  qed
qed

lemma aggregate_resolve:
  "aggregate_kernel_stats event_lists stats =
     foldl record_interval stats (concat (map resolve_thread event_lists))"
  unfolding aggregate_kernel_stats_def
  by (induction event_lists arbitrary: stats)
     (simp_all add: thread_loop_resolve resolve_thread_def)

subsection \<open>The table after a list of intervals\<close>

lemma stat_at_record_interval:
  "stat_at (record_interval stats iv) k =
     (if iv_name iv = k then update_stat (stat_at stats k) iv else stat_at stats k)"
  by (simp add: stat_at_def record_interval_def)

lemma stat_at_Some: "stats k = Some s \<Longrightarrow> stat_at stats k = s"
  by (simp add: stat_at_def)

lemma stat_at_foldl:
  "stat_at (foldl record_interval stats ivs) k =
     foldl update_stat (stat_at stats k) (filter (\<lambda>iv. iv_name iv = k) ivs)"
  by (induction ivs arbitrary: stats) (simp_all add: stat_at_record_interval)

lemma num_fields_update: "num_fields (update_stat s iv) = num_step iv (num_fields s)"
  by (simp add: num_fields_def update_stat_def)

lemma num_fields_foldl: "num_fields (foldl update_stat s ivs) = fold num_step ivs (num_fields s)"
  by (induction ivs arbitrary: s) (simp_all add: num_fields_update)

lemma num_step_commute: "num_step a \<circ> num_step b = num_step b \<circ> num_step a"
  by (rule ext) (auto simp: max.commute max.left_commute)

lemma fold_num_step_mset:
  "mset xs = mset ys \<Longrightarrow> fold num_step xs = fold num_step ys"
  by (rule fold_multiset_equiv) (simp_all add: num_step_commute)

lemma sample_shape_foldl:
  "sample_shape (foldl update_stat s ivs) =
     (if sample_shape s \<noteq> [] then sample_shape s
      else case filter (\<lambda>iv. iv_shape iv \<noteq> []) ivs of [] \<Rightarrow> [] | iv # _ \<Rightarrow> iv_shape iv)"
  by (induction ivs arbitrary: s) (simp_all add: update_stat_def)

lemma filter_name_shape:
  "filter (\<lambda>iv. iv_shape iv \<noteq> []) (filter (\<lambda>iv. iv_name iv = k) ivs) =
     filter (\<lambda>iv. iv_name iv = k \<and> iv_shape iv \<noteq> []) ivs"
  by (induction ivs) simp_all

lemma stat_ok_update: "stat_ok s \<Longrightarrow> interval_ok iv \<Longrightarrow> stat_ok (update_stat s iv)"
  by (auto simp: stat_ok_def interval_ok_def update_stat_def)

lemma stat_ok_foldl:
  "stat_ok s \<Longrightarrow> \<forall>iv \<in> set ivs. interval_ok iv \<Longrightarrow> stat_ok (foldl update_stat s ivs)"
  by (induction ivs arbitrary: s) (simp_all add: stat_ok_update)

lemma resolve_thread_ok: "iv \<in> set (resolve_thread events) \<Longrightarrow> interval_ok iv"
  using resolve_loop_ok[of "[]" events] by (simp add: resolve_thread_def frames_ok_def)

subsection \<open>Rounded addition\<close>

lemma update_stat_fl_exact: "update_stat_fl (+) = update_stat"
  by (intro ext) (simp add: update_stat_fl_def update_stat_def)

lemma record_interval_fl_exact: "record_interval_fl (+) = record_interval"
  by (intro ext) (simp add: record_interval_fl_def record_interval_def update_stat_fl_exact)

lemma stat_at_record_interval_fl:
  "stat_at (record_interval_fl fadd stats iv) k =
     (if iv_name iv = k then update_stat_fl fadd (stat_at stats k) iv else stat_at stats k)"
  by (simp add: stat_at_def record_interval_fl_def)

lemma foldl_record_interval_fl_None:
  "foldl (record_interval_fl fadd) stats ivs k = None \<longleftrightarrow>
     stats k = None \<and> k \<notin> iv_name ` set ivs"
  by (induction ivs arbitrary: stats) (auto simp: record_interval_fl_def)

lemma stat_at_foldl_fl:
  "stat_at (foldl (record_interval_fl fadd) stats ivs) k =
     foldl (update_stat_fl fadd) (stat_at stats k) (named k ivs)"
  by (induction ivs arbitrary: stats) (simp_all add: stat_at_record_interval_fl named_def)

lemma exact_fields_fl:
  "max_us s = max_us s' \<Longrightarrow> calls s = calls s' \<Longrightarrow>
     max_us (foldl (update_stat_fl fadd) s ivs) = max_us (foldl update_stat s' ivs) \<and>
     calls (foldl (update_stat_fl fadd) s ivs) = calls (foldl update_stat s' ivs)"
  by (induction ivs arbitrary: s s') (simp_all add: update_stat_fl_def update_stat_def)

lemma total_us_foldl_fl:
  "total_us (foldl (update_stat_fl fadd) s ivs) = foldl fadd (total_us s) (map inclusive_us ivs)"
  by (induction ivs arbitrary: s) (simp_all add: update_stat_fl_def)

lemma self_us_foldl_fl:
  "self_us (foldl (update_stat_fl fadd) s ivs) = foldl fadd (self_us s) (map exclusive_us ivs)"
  by (induction ivs arbitrary: s) (simp_all add: update_stat_fl_def)

lemma abs_sum_le: "\<bar>a + sum_list vs\<bar> \<le> \<bar>a\<bar> + sum_list (map abs vs)" for a :: real
  using sum_list_abs[of vs] by linarith

lemma rounded_sum_error:
  assumes "rounds_within u fadd"
  shows "\<bar>foldl fadd a vs - (a + sum_list vs)\<bar> \<le>
           ((1 + u) ^ length vs - 1) * (\<bar>a\<bar> + sum_list (map abs vs))"
proof (induction vs rule: rev_induct)
  case Nil
  then show ?case by simp
next
  case (snoc v vs)
  define F where "F = foldl fadd a vs"
  define E where "E = a + sum_list vs"
  define M where "M = \<bar>a\<bar> + sum_list (map abs vs)"
  define p where "p = (1 + u) ^ length vs"
  have u: "0 \<le> u" and r: "\<bar>fadd F v - (F + v)\<bar> \<le> u * \<bar>F + v\<bar>"
    using assms by (simp_all add: rounds_within_def)
  have p: "1 \<le> p" unfolding p_def using u by (simp add: one_le_power)
  have M: "0 \<le> M" unfolding M_def by (auto intro!: add_nonneg_nonneg sum_list_nonneg)
  have EM: "\<bar>E\<bar> \<le> M" unfolding E_def M_def by (rule abs_sum_le)
  have IH: "\<bar>F - E\<bar> \<le> (p - 1) * M"
    using snoc.IH by (simp add: F_def E_def M_def p_def)
  have "\<bar>F\<bar> \<le> \<bar>E\<bar> + (p - 1) * M" using IH by linarith
  also have "\<dots> \<le> M + (p - 1) * M" using EM by simp
  also have "\<dots> = p * M" by (simp add: algebra_simps)
  finally have F: "\<bar>F\<bar> \<le> p * M" .
  have "\<bar>F + v\<bar> \<le> p * M + \<bar>v\<bar>" using F by linarith
  then have "u * \<bar>F + v\<bar> \<le> u * (p * M + \<bar>v\<bar>)" using u by (rule mult_left_mono)
  with r have r': "\<bar>fadd F v - (F + v)\<bar> \<le> u * (p * M + \<bar>v\<bar>)" by linarith
  have "\<bar>fadd F v - (E + v)\<bar> \<le> \<bar>fadd F v - (F + v)\<bar> + \<bar>F - E\<bar>" by linarith
  also have "\<dots> \<le> u * (p * M + \<bar>v\<bar>) + (p - 1) * M" using r' IH by linarith
  also have "\<dots> \<le> ((1 + u) * p - 1) * (M + \<bar>v\<bar>)"
  proof -
    have "0 \<le> ((1 + u) * p - 1 - u) * \<bar>v\<bar>"
    proof (rule mult_nonneg_nonneg)
      have "u * 1 \<le> u * p" using p u by (intro mult_left_mono)
      then show "0 \<le> (1 + u) * p - 1 - u" using p by (simp add: algebra_simps)
    qed simp
    then show ?thesis by (simp add: algebra_simps)
  qed
  finally show ?case
    by (simp add: F_def E_def M_def p_def algebra_simps)
qed

lemma rounds_within_fadd_53: "rounds_within (1 / 9007199254740992) fadd_53"
  by (simp add: rounds_within_def fadd_53_def)

lemma named_perm: "mset xs = mset ys \<Longrightarrow> mset (named k xs) = mset (named k ys)"
  by (simp add: named_def)

lemma rounded_sums_close:
  assumes "rounds_within u fadd" and "mset vs = mset ws"
  shows "\<bar>foldl fadd a vs - foldl fadd a ws\<bar> \<le>
           2 * ((1 + u) ^ length vs - 1) * (\<bar>a\<bar> + sum_list (map abs vs))"
proof -
  have len: "length ws = length vs"
    using assms(2) by (metis mset_eq_length)
  have sum: "sum_list ws = sum_list vs"
    using assms(2) by (metis sum_mset_sum_list)
  have "mset (map abs ws) = mset (map abs vs)"
    using assms(2) by simp
  then have abs: "sum_list (map abs ws) = sum_list (map abs vs)"
    by (metis sum_mset_sum_list)
  define B where "B = ((1 + u) ^ length vs - 1) * (\<bar>a\<bar> + sum_list (map abs vs))"
  have "\<bar>foldl fadd a vs - (a + sum_list vs)\<bar> \<le> B"
    "\<bar>foldl fadd a ws - (a + sum_list vs)\<bar> \<le> B"
    using rounded_sum_error[OF assms(1), of a vs] rounded_sum_error[OF assms(1), of a ws]
    unfolding len sum abs B_def by simp_all
  then have "\<bar>foldl fadd a vs - foldl fadd a ws\<bar> \<le> 2 * B"
    by linarith
  then show ?thesis by (simp only: B_def mult.assoc)
qed

subsection \<open>The report\<close>

lemma is_row_row_of [simp]: "is_row (row_of e)"
  by (simp add: row_of_def Let_def)

lemma row_total_row_of [simp]: "row_total (row_of e) = total_us (snd e)"
  by (simp add: row_of_def Let_def)

lemma filter_is_row_map: "filter is_row (map row_of es) = map row_of es"
  by (induction es) simp_all

lemma rows_of_print:
  "entries \<noteq> [] \<Longrightarrow>
     filter is_row (print_kernel_stats srt entries) =
       map row_of (take (min 30 (length (srt by_total_desc entries))) (srt by_total_desc entries))"
  by (simp add: print_kernel_stats_def Let_def filter_is_row_map)

lemma foldl_self_sum:
  "foldl (\<lambda>t entry. t + self_us (snd entry)) a es = a + sum_list (map (\<lambda>e. self_us (snd e)) es)"
  by (induction es arbitrary: a) simp_all

lemma sum_list_perm:
  fixes f :: "'a \<Rightarrow> real"
  assumes "mset xs = mset ys"
  shows "sum_list (map f xs) = sum_list (map f ys)"
proof -
  have "sum_mset (image_mset f (mset xs)) = sum_mset (image_mset f (mset ys))"
    using assms by simp
  then show ?thesis by (simp flip: mset_map add: sum_mset_sum_list)
qed

lemma strict_weak_by_total_desc: "strict_weak_order by_total_desc"
  by (auto simp: strict_weak_order_def by_total_desc_def)

lemma std_sort_by_total:
  assumes "std_sort_spec srt"
  shows "mset (srt by_total_desc es) = mset es" and "total_desc (srt by_total_desc es)"
proof -
  have "mset (srt by_total_desc es) = mset es \<and>
      sorted_wrt (\<lambda>l r. \<not> by_total_desc r l) (srt by_total_desc es)"
    using assms strict_weak_by_total_desc by (simp add: std_sort_spec_def)
  then show "mset (srt by_total_desc es) = mset es" and "total_desc (srt by_total_desc es)"
    by (simp_all add: total_desc_def by_total_desc_def not_less)
qed

lemma std_sort_spec_length: "std_sort_spec srt \<Longrightarrow> length (srt by_total_desc es) = length es"
  by (metis std_sort_by_total(1) mset_eq_length)

lemma mset_insert_by: "mset (insert_by cmp x ys) = add_mset x (mset ys)"
  by (induction ys) simp_all

lemma set_insert_by: "set (insert_by cmp x ys) = insert x (set ys)"
  by (induction ys) auto

lemma mset_insertion_sort: "mset (insertion_sort cmp es) = mset es"
  by (induction es) (simp_all add: mset_insert_by)

lemma sorted_insert_by:
  assumes "strict_weak_order cmp" and "sorted_wrt (\<lambda>l r. \<not> cmp r l) ys"
  shows "sorted_wrt (\<lambda>l r. \<not> cmp r l) (insert_by cmp x ys)"
  using assms(2)
proof (induction ys)
  case Nil
  then show ?case by simp
next
  case (Cons y ys)
  have asym: "cmp a b \<Longrightarrow> \<not> cmp b a" for a b
    using assms(1) unfolding strict_weak_order_def by blast
  have ntrans: "\<not> cmp a b \<Longrightarrow> \<not> cmp b c \<Longrightarrow> \<not> cmp a c" for a b c
    using assms(1) unfolding strict_weak_order_def by blast
  show ?case
  proof (cases "cmp x y")
    case True
    then have "\<not> cmp y x" by (rule asym)
    moreover have "\<not> cmp z x" if "z \<in> set ys" for z
      using that Cons.prems \<open>\<not> cmp y x\<close> ntrans[of z y x] by auto
    ultimately show ?thesis using True Cons.prems by simp
  next
    case False
    with Cons show ?thesis by (auto simp: set_insert_by)
  qed
qed

lemma sorted_insertion_sort:
  "strict_weak_order cmp \<Longrightarrow> sorted_wrt (\<lambda>l r. \<not> cmp r l) (insertion_sort cmp es)"
  by (induction es) (simp_all add: sorted_insert_by)

lemma std_sort_spec_insertion: "std_sort_spec insertion_sort"
  by (simp add: std_sort_spec_def mset_insertion_sort sorted_insertion_sort)

lemma entries_sum:
  fixes f :: "KernelStat \<Rightarrow> real"
  shows "distinct (map fst es) \<Longrightarrow>
     sum_list (map (\<lambda>e. f (snd e)) es) = (\<Sum>k \<in> dom (map_of es). f (stat_at (map_of es) k))"
proof (induction es)
  case Nil
  then show ?case by simp
next
  case (Cons e es)
  obtain k v where e: "e = (k, v)" by (cases e)
  let ?m = "map_of es" and ?m' = "map_of (e # es)"
  from Cons.prems e have k: "k \<notin> dom ?m" and d: "distinct (map fst es)"
    by (auto simp: dom_map_of_conv_image_fst)
  have dom_eq: "dom ?m' = insert k (dom ?m)"
    using e by auto
  have at_k: "stat_at ?m' k = v"
    using e by (simp add: stat_at_def)
  have rest: "(\<Sum>j \<in> dom ?m. f (stat_at ?m' j)) = (\<Sum>j \<in> dom ?m. f (stat_at ?m j))"
  proof (rule sum.cong)
    fix j assume "j \<in> dom ?m"
    with k have "j \<noteq> k" by auto
    then show "f (stat_at ?m' j) = f (stat_at ?m j)"
      using e by (simp add: stat_at_def)
  qed simp
  have "(\<Sum>j \<in> dom ?m'. f (stat_at ?m' j)) = f (stat_at ?m' k) + (\<Sum>j \<in> dom ?m. f (stat_at ?m' j))"
    unfolding dom_eq using k by (simp add: finite_dom_map_of del: map_of.simps)
  also have "\<dots> = f v + (\<Sum>j \<in> dom ?m. f (stat_at ?m j))"
    by (simp only: at_k rest)
  also have "\<dots> = sum_list (map (\<lambda>e. f (snd e)) (e # es))"
    using Cons.IH[OF d] e by simp
  finally show ?case by (rule sym)
qed

lemma three_sorted:
  assumes "mset ys = mset [(a, sa), (b, sb), (c, sc)]" "total_desc ys"
    "total_us sa = 100" "total_us sb = 50" "total_us sc = 200"
  shows "ys = [(c, sc), (a, sa), (b, sb)]"
proof -
  from assms(1) have "length ys = 3" by (metis mset_eq_length length_Cons list.size(3) numeral_3_eq_3)
  then obtain x y z where ys: "ys = [x, y, z]"
    by (metis (no_types, opaque_lifting) length_0_conv length_Suc_conv numeral_3_eq_3)
  from assms(1) have "set ys = {(a, sa), (b, sb), (c, sc)}" by (metis mset_eq_setD list.simps(15) empty_set)
  with ys have mem: "x \<in> {(a, sa), (b, sb), (c, sc)}" "y \<in> {(a, sa), (b, sb), (c, sc)}" "z \<in> {(a, sa), (b, sb), (c, sc)}"
    and cov: "(a, sa) \<in> {x, y, z}" "(b, sb) \<in> {x, y, z}" "(c, sc) \<in> {x, y, z}"
    by auto
  from assms(2) ys have ord: "total_us (snd y) \<le> total_us (snd x)" "total_us (snd z) \<le> total_us (snd y)"
    by (simp_all add: total_desc_def)
  from mem cov ord assms(3-5) show ?thesis unfolding ys by auto
qed

subsection \<open>More on the loop and the report\<close>

lemma map_start_add_child_time [simp]: "map start (add_child_time t stack) = map start stack"
  by (cases stack) simp_all

lemma stays_open_stack:
  "stays_open (length upper) events \<Longrightarrow>
     \<exists>upper'. map start (fst (resolve_loop (upper @ lower) events)) = upper' @ map start lower"
proof (induction events arbitrary: upper lower)
  case Nil
  then show ?case by simp
next
  case (Cons event events)
  show ?case
  proof (cases "kind event = PushRange")
    case True
    with Cons.prems
    have "stays_open (length (\<lparr>start = event, child_time_us = 0\<rparr> # upper)) events"
      by simp
    from Cons.IH[OF this, of lower] True show ?thesis by simp
  next
    case notpush: False
    show ?thesis
    proof (cases "kind event = PopRange")
      case False
      with notpush Cons.IH[OF _, of upper lower] Cons.prems show ?thesis by simp
    next
      case True
      with notpush Cons.prems obtain active upper' where ab: "upper = active # upper'"
        and so: "stays_open (length upper') events"
        by (cases upper) auto
      let ?t = "inclusive_us (close_range active event)"
      show ?thesis
      proof (cases "upper' = []")
        case emp: True
        with so have "stays_open (length ([] :: ActiveRange list)) events" by simp
        from Cons.IH[OF this, of "add_child_time ?t lower"]
        show ?thesis using notpush True ab emp by (simp add: Let_def)
      next
        case False
        from so have "stays_open (length (add_child_time ?t upper')) events" by simp
        from Cons.IH[OF this, of lower]
        show ?thesis using notpush True ab False
          by (simp add: Let_def add_child_time_append)
      qed
    qed
  qed
qed

lemma entries_of_card: "entries_of stats entries \<Longrightarrow> card (dom stats) = length entries"
  by (metis entries_of_def dom_map_of_conv_image_fst distinct_card length_map list.set_map)

lemma take_min_length: "take (min n (length xs)) xs = take n xs"
  by (simp add: min_def)

lemma print_nonempty:
  assumes "std_sort_spec srt" "entries \<noteq> []"
  shows "print_kernel_stats srt entries =
       [Text title_line, Text header_line, Text rule_line]
       @ map row_of (take 30 (srt by_total_desc entries))
       @ [Text rule_line, SelfTotal (sum_list (map (\<lambda>e. self_us (snd e)) entries))]"
proof -
  have "mset (srt by_total_desc entries) = mset entries"
    using assms(1) by (rule std_sort_by_total)
  then have "sum_list (map (\<lambda>e. self_us (snd e)) (srt by_total_desc entries)) =
      sum_list (map (\<lambda>e. self_us (snd e)) entries)"
    by (rule sum_list_perm)
  then show ?thesis
    using assms(2) by (simp add: print_kernel_stats_def Let_def foldl_self_sum take_min_length)
qed

lemma sorted_wrt_take: "sorted_wrt P xs \<Longrightarrow> sorted_wrt P (take n xs)"
  by (metis append_take_drop_id sorted_wrt_append)

lemma forty_distinct: "distinct (map fst forty_entries)"
  unfolding forty_entries_def by code_simp

section \<open>The claims\<close>

text \<open>
  C1. The stream \<open>Enter(A, 0), Enter(B, 10), Exit(B, 30), Exit(A, 50)\<close> of one thread
  closes exactly two intervals, in this order: B with inclusive time 20 and exclusive time
  20, then A with inclusive time 50 and exclusive time 30; the inclusive time of the closed
  child B was added to the child time of A. The table after these events is the table
  with these two intervals recorded. This holds for all names, shapes and tables.
\<close>

theorem nested_interval_decomposition:
  "resolve_thread [Enter a 0 sa, Enter b 10 sb, Exit b 30, Exit a 50] =
     [\<lparr>iv_name = b, iv_shape = format_shape sb, inclusive_us = 20, exclusive_us = 20\<rparr>,
      \<lparr>iv_name = a, iv_shape = format_shape sa, inclusive_us = 50, exclusive_us = 30\<rparr>] \<and>
   aggregate_kernel_stats [[Enter a 0 sa, Enter b 10 sb, Exit b 30, Exit a 50]] stats =
     record_interval
       (record_interval stats
          \<lparr>iv_name = b, iv_shape = format_shape sb, inclusive_us = 20, exclusive_us = 20\<rparr>)
       \<lparr>iv_name = a, iv_shape = format_shape sa, inclusive_us = 50, exclusive_us = 30\<rparr>"
  by (simp add: ev_simps aggregate_kernel_stats_def)

text \<open>
  The instance with the names \<open>A\<close> and \<open>B\<close>, where B has the shape \<open>[2x3]\<close>, from the
  empty table.
\<close>

theorem nested_interval_decomposition_witness:
  "resolve_thread [Enter ''A'' 0 [], Enter ''B'' 10 [[2, 3]], Exit ''B'' 30, Exit ''A'' 50] =
     [\<lparr>iv_name = ''B'', iv_shape = ''[2x3]'', inclusive_us = 20, exclusive_us = 20\<rparr>,
      \<lparr>iv_name = ''A'', iv_shape = [], inclusive_us = 50, exclusive_us = 30\<rparr>] \<and>
   aggregate_kernel_stats
       [[Enter ''A'' 0 [], Enter ''B'' 10 [[2, 3]], Exit ''B'' 30, Exit ''A'' 50]] Map.empty ''A'' =
     Some \<lparr>total_us = 50, self_us = 30, max_us = 50, calls = 1, sample_shape = []\<rparr> \<and>
   aggregate_kernel_stats
       [[Enter ''A'' 0 [], Enter ''B'' 10 [[2, 3]], Exit ''B'' 30, Exit ''A'' 50]] Map.empty ''B'' =
     Some \<lparr>total_us = 20, self_us = 20, max_us = 20, calls = 1, sample_shape = ''[2x3]''\<rparr>"
  using nested_interval_decomposition [of "''A''" "[]" "''B''" "[[2, 3]]" Map.empty]
  by (simp add: shape_simps record_interval_def update_stat_def stat_at_def KernelStat0_def)

text \<open>
  C2, as stated, fails. The name \<open>X\<close> is closed twice on one thread: first with no shape
  recorded (\<^verbatim>\<open>format_shape\<close> gives the empty string), then with the shape \<open>[2x3]\<close>. The
  first interval folded in for \<open>X\<close> has the empty shape string, and the entry of \<open>X\<close> ends
  with the sample shape \<open>[2x3]\<close>, taken from the second interval.
\<close>

theorem sample_shape_first_wins_counterexample:
  "iv_shape (hd (resolve_thread
       [Enter ''X'' 0 [], Exit ''X'' 1, Enter ''X'' 2 [[2, 3]], Exit ''X'' 3])) = [] \<and>
   map_option sample_shape (aggregate_kernel_stats
       [[Enter ''X'' 0 [], Exit ''X'' 1, Enter ''X'' 2 [[2, 3]], Exit ''X'' 3]] Map.empty ''X'')
     = Some ''[2x3]'' \<and>
   map_option sample_shape (aggregate_kernel_stats
       [[Enter ''X'' 0 [], Exit ''X'' 1, Enter ''X'' 2 [[2, 3]], Exit ''X'' 3]] Map.empty ''X'')
     \<noteq> Some (iv_shape (hd (resolve_thread
       [Enter ''X'' 0 [], Exit ''X'' 1, Enter ''X'' 2 [[2, 3]], Exit ''X'' 3])))"
  by (simp add: ev_simps table_simps shape_simps)

text \<open>
  C2, amended. For every name \<open>k\<close> in the aggregated table, the sample shape is the one
  the entry already had when that was not empty, and otherwise the shape string of the
  first interval folded in for \<open>k\<close> whose shape string is not empty (the empty string when
  there is none). So a sample shape that is not empty is never overwritten.
\<close>

theorem sample_shape_first_nonempty_wins:
  assumes "aggregate_kernel_stats event_lists stats k = Some s"
  shows "sample_shape s =
     (if sample_shape (stat_at stats k) \<noteq> [] then sample_shape (stat_at stats k)
      else first_nonempty_shape k (concat (map resolve_thread event_lists)))"
proof -
  let ?ivs = "concat (map resolve_thread event_lists)"
  have "s = stat_at (foldl record_interval stats ?ivs) k"
    using assms by (simp add: aggregate_resolve stat_at_Some)
  then show ?thesis
    by (simp add: stat_at_foldl sample_shape_foldl filter_name_shape first_nonempty_shape_def)
qed

text \<open>
  An instance: three closed ranges named \<open>X\<close> with the shapes none, \<open>[2x3]\<close> and \<open>[7]\<close>;
  the entry keeps \<open>[2x3]\<close>.
\<close>

theorem sample_shape_first_nonempty_wins_witness:
  "aggregate_kernel_stats
       [[Enter ''X'' 0 [], Exit ''X'' 1, Enter ''X'' 2 [[2, 3]], Exit ''X'' 3,
         Enter ''X'' 4 [[7]], Exit ''X'' 6]] Map.empty ''X''
     = Some \<lparr>total_us = 4, self_us = 4, max_us = 2, calls = 3, sample_shape = ''[2x3]''\<rparr> \<and>
   first_nonempty_shape ''X'' (concat (map resolve_thread
       [[Enter ''X'' 0 [], Exit ''X'' 1, Enter ''X'' 2 [[2, 3]], Exit ''X'' 3,
         Enter ''X'' 4 [[7]], Exit ''X'' 6]])) = ''[2x3]''"
proof -
  have h: "aggregate_kernel_stats
       [[Enter ''X'' 0 [], Exit ''X'' 1, Enter ''X'' 2 [[2, 3]], Exit ''X'' 3,
         Enter ''X'' 4 [[7]], Exit ''X'' 6]] Map.empty ''X''
     = Some \<lparr>total_us = 4, self_us = 4, max_us = 2, calls = 3, sample_shape = ''[2x3]''\<rparr>"
    by (simp add: ev_simps table_simps shape_simps)
  from sample_shape_first_nonempty_wins [OF h] h show ?thesis
    by (simp add: stat_at_def KernelStat0_def)
qed

text \<open>
  C3. No interval closed on a thread has a negative inclusive or exclusive time. And
  when the range on top of the stack after the events \<open>pre\<close> is closed by a \<^verbatim>\<open>PopRange\<close>
  event whose timestamp is earlier than that of the opening event, the interval closed for
  this pair has inclusive time 0 and exclusive time 0.
\<close>

theorem negative_durations_clamped:
  "(\<forall>iv \<in> set (resolve_thread events). 0 \<le> inclusive_us iv \<and> 0 \<le> exclusive_us iv) \<and>
   (fst (resolve_loop [] pre) = active # stack \<longrightarrow> kind e = PopRange \<longrightarrow>
    timestamp_us e < timestamp_us (start active) \<longrightarrow>
      resolve_thread (pre @ [e]) =
        resolve_thread pre @
          [\<lparr>iv_name = name (start active), iv_shape = format_shape (shapes (start active)),
            inclusive_us = 0, exclusive_us = 0\<rparr>])"
proof (intro conjI ballI impI)
  fix iv assume "iv \<in> set (resolve_thread events)"
  then have "interval_ok iv" by (rule resolve_thread_ok)
  then show "0 \<le> inclusive_us iv" "0 \<le> exclusive_us iv"
    by (simp_all add: interval_ok_def)
next
  assume st: "fst (resolve_loop [] pre) = active # stack" and pop: "kind e = PopRange"
    and ts: "timestamp_us e < timestamp_us (start active)"
  have "frames_ok (fst (resolve_loop [] pre))"
    using resolve_loop_ok[of "[]" pre] by (simp add: frames_ok_def)
  with st have child: "0 \<le> child_time_us active" by (simp add: frames_ok_def)
  have "close_range active e =
      \<lparr>iv_name = name (start active), iv_shape = format_shape (shapes (start active)),
       inclusive_us = 0, exclusive_us = 0\<rparr>"
    using ts child by (simp add: close_range_def cpuElapsedUs_def Let_def)
  then show "resolve_thread (pre @ [e]) =
        resolve_thread pre @
          [\<lparr>iv_name = name (start active), iv_shape = format_shape (shapes (start active)),
            inclusive_us = 0, exclusive_us = 0\<rparr>]"
    using st pop by (simp add: resolve_thread_def resolve_loop_append Let_def)
qed

text \<open>An instance: \<open>Enter(A, 10)\<close> closed by \<open>Exit(A, 5)\<close>.\<close>

theorem negative_durations_clamped_witness:
  "\<lparr>iv_name = ''A'', iv_shape = [], inclusive_us = 0, exclusive_us = 0\<rparr>
      \<in> set (resolve_thread [Enter ''A'' 10 [], Exit ''A'' 5]) \<and>
   fst (resolve_loop [] [Enter ''A'' 10 []]) = [\<lparr>start = Enter ''A'' 10 [], child_time_us = 0\<rparr>] \<and>
   kind (Exit ''A'' 5) = PopRange \<and>
   timestamp_us (Exit ''A'' 5) < timestamp_us (start \<lparr>start = Enter ''A'' 10 [], child_time_us = 0\<rparr>) \<and>
   resolve_thread ([Enter ''A'' 10 []] @ [Exit ''A'' 5]) =
     resolve_thread [Enter ''A'' 10 []] @
       [\<lparr>iv_name = ''A'', iv_shape = [], inclusive_us = 0, exclusive_us = 0\<rparr>]"
  using negative_durations_clamped [of "[Enter ''A'' 10 [], Exit ''A'' 5]" "[Enter ''A'' 10 []]"
      "\<lparr>start = Enter ''A'' 10 [], child_time_us = 0\<rparr>" "[]" "Exit ''A'' 5"]
  by (simp add: ev_simps format_shape_def)

text \<open>
  C4. The additions of lines 108-109 are additions of \<^verbatim>\<open>double\<close>; here the addition is
  any function \<open>fadd\<close>. Two lists of resolved intervals that are permutations of each
  other, folded into the same table, give for every name \<open>k\<close> an entry in both results or
  in neither, and the two entries have the same \<open>calls\<close> and the same \<open>max_us\<close>. When
  \<open>fadd\<close> rounds within the fraction \<open>u\<close> of the exact sum, the two values of \<open>total_us\<close>
  differ by at most \<open>2 * ((1 + u)^n - 1) * (\<bar>t\<bar> + \<bar>d\<^sub>1\<bar> + ... + \<bar>d\<^sub>n\<bar>)\<close>, where \<open>d\<^sub>1\<close>, ...,
  \<open>d\<^sub>n\<close> are the inclusive times of the intervals named \<open>k\<close> and \<open>t\<close> is the total the
  entry had before; the same holds for \<open>self_us\<close> with the exclusive times. For the exact
  addition (\<open>u = 0\<close>) the bound is 0 and the sums are equal. The sample shape is not part
  of the claim: it depends on the order.
\<close>

theorem aggregation_order_independent:
  assumes "mset xs = mset ys"
  shows "(foldl (record_interval_fl fadd) stats xs k = None \<longleftrightarrow>
          foldl (record_interval_fl fadd) stats ys k = None) \<and>
     (\<forall>sx sy. foldl (record_interval_fl fadd) stats xs k = Some sx \<longrightarrow>
        foldl (record_interval_fl fadd) stats ys k = Some sy \<longrightarrow>
          calls sx = calls sy \<and> max_us sx = max_us sy \<and>
          (rounds_within u fadd \<longrightarrow>
             \<bar>total_us sx - total_us sy\<bar> \<le>
               2 * ((1 + u) ^ length (named k xs) - 1) *
                 (\<bar>total_us (stat_at stats k)\<bar> + (\<Sum>iv \<leftarrow> named k xs. \<bar>inclusive_us iv\<bar>)) \<and>
             \<bar>self_us sx - self_us sy\<bar> \<le>
               2 * ((1 + u) ^ length (named k xs) - 1) *
                 (\<bar>self_us (stat_at stats k)\<bar> + (\<Sum>iv \<leftarrow> named k xs. \<bar>exclusive_us iv\<bar>))))"
proof (intro conjI allI impI)
  have "set xs = set ys" using assms by (rule mset_eq_setD)
  then show "foldl (record_interval_fl fadd) stats xs k = None \<longleftrightarrow>
      foldl (record_interval_fl fadd) stats ys k = None"
    by (simp add: foldl_record_interval_fl_None)
next
  fix sx sy
  assume "foldl (record_interval_fl fadd) stats xs k = Some sx"
    "foldl (record_interval_fl fadd) stats ys k = Some sy"
  then have sx: "sx = foldl (update_stat_fl fadd) (stat_at stats k) (named k xs)"
    and sy: "sy = foldl (update_stat_fl fadd) (stat_at stats k) (named k ys)"
    by (simp_all add: stat_at_Some flip: stat_at_foldl_fl)
  have perm: "mset (named k xs) = mset (named k ys)"
    using assms by (rule named_perm)
  have "num_fields (foldl update_stat (stat_at stats k) (named k xs)) =
        num_fields (foldl update_stat (stat_at stats k) (named k ys))"
    using fold_num_step_mset[OF perm] by (simp add: num_fields_foldl)
  then have "max_us (foldl update_stat (stat_at stats k) (named k xs)) =
        max_us (foldl update_stat (stat_at stats k) (named k ys))"
    "calls (foldl update_stat (stat_at stats k) (named k xs)) =
        calls (foldl update_stat (stat_at stats k) (named k ys))"
    by (simp_all add: num_fields_def)
  then show "calls sx = calls sy" "max_us sx = max_us sy"
    unfolding sx sy
    using exact_fields_fl[of "stat_at stats k" "stat_at stats k" fadd "named k xs"]
      exact_fields_fl[of "stat_at stats k" "stat_at stats k" fadd "named k ys"]
    by simp_all
  assume r: "rounds_within u fadd"
  have "mset (map inclusive_us (named k xs)) = mset (map inclusive_us (named k ys))"
    "mset (map exclusive_us (named k xs)) = mset (map exclusive_us (named k ys))"
    using perm by simp_all
  from rounded_sums_close[OF r this(1), of "total_us (stat_at stats k)"]
    rounded_sums_close[OF r this(2), of "self_us (stat_at stats k)"]
  show "\<bar>total_us sx - total_us sy\<bar> \<le>
               2 * ((1 + u) ^ length (named k xs) - 1) *
                 (\<bar>total_us (stat_at stats k)\<bar> + (\<Sum>iv \<leftarrow> named k xs. \<bar>inclusive_us iv\<bar>))"
    "\<bar>self_us sx - self_us sy\<bar> \<le>
               2 * ((1 + u) ^ length (named k xs) - 1) *
                 (\<bar>self_us (stat_at stats k)\<bar> + (\<Sum>iv \<leftarrow> named k xs. \<bar>exclusive_us iv\<bar>))"
    unfolding sx sy by (simp_all add: total_us_foldl_fl self_us_foldl_fl comp_def)
qed

text \<open>
  An instance where the order shows: the durations \<open>2^53\<close>, 1, 1 of one name, added with
  \<open>fadd_53\<close>. Starting with \<open>2^53\<close> both additions of 1 are rounded away and the total is
  \<open>2^53\<close>; starting with 1 and 1 the total is \<open>2^53 + 2\<close>. The counter and the maximum
  agree, and the difference 2 is within the bound.
\<close>

theorem aggregation_order_independent_witness:
  "mset [\<lparr>iv_name = ''A'', iv_shape = [], inclusive_us = 9007199254740992, exclusive_us = 9007199254740992\<rparr>,
         \<lparr>iv_name = ''A'', iv_shape = [], inclusive_us = 1, exclusive_us = 1\<rparr>,
         \<lparr>iv_name = ''A'', iv_shape = [], inclusive_us = 1, exclusive_us = 1\<rparr>] =
   mset [\<lparr>iv_name = ''A'', iv_shape = [], inclusive_us = 1, exclusive_us = 1\<rparr>,
         \<lparr>iv_name = ''A'', iv_shape = [], inclusive_us = 1, exclusive_us = 1\<rparr>,
         \<lparr>iv_name = ''A'', iv_shape = [], inclusive_us = 9007199254740992, exclusive_us = 9007199254740992\<rparr>] \<and>
   rounds_within (1 / 9007199254740992) fadd_53 \<and>
   foldl (record_interval_fl fadd_53) Map.empty
        [\<lparr>iv_name = ''A'', iv_shape = [], inclusive_us = 9007199254740992, exclusive_us = 9007199254740992\<rparr>,
         \<lparr>iv_name = ''A'', iv_shape = [], inclusive_us = 1, exclusive_us = 1\<rparr>,
         \<lparr>iv_name = ''A'', iv_shape = [], inclusive_us = 1, exclusive_us = 1\<rparr>] ''A'' =
     Some \<lparr>total_us = 9007199254740992, self_us = 9007199254740992,
           max_us = 9007199254740992, calls = 3, sample_shape = []\<rparr> \<and>
   foldl (record_interval_fl fadd_53) Map.empty
        [\<lparr>iv_name = ''A'', iv_shape = [], inclusive_us = 1, exclusive_us = 1\<rparr>,
         \<lparr>iv_name = ''A'', iv_shape = [], inclusive_us = 1, exclusive_us = 1\<rparr>,
         \<lparr>iv_name = ''A'', iv_shape = [], inclusive_us = 9007199254740992, exclusive_us = 9007199254740992\<rparr>] ''A'' =
     Some \<lparr>total_us = 9007199254740994, self_us = 9007199254740994,
           max_us = 9007199254740992, calls = 3, sample_shape = []\<rparr> \<and>
   \<bar>9007199254740992 - 9007199254740994 :: real\<bar> \<le>
     2 * ((1 + 1 / 9007199254740992) ^ 3 - 1) * (\<bar>0\<bar> + (9007199254740992 + 1 + 1))"
proof -
  let ?big = "\<lparr>iv_name = ''A'', iv_shape = [], inclusive_us = 9007199254740992, exclusive_us = 9007199254740992\<rparr>"
  let ?one = "\<lparr>iv_name = ''A'', iv_shape = [], inclusive_us = 1, exclusive_us = 1\<rparr>"
  have m: "mset [?big, ?one, ?one] = mset [?one, ?one, ?big]"
    by simp
  have x: "foldl (record_interval_fl fadd_53) Map.empty [?big, ?one, ?one] ''A'' =
     Some \<lparr>total_us = 9007199254740992, self_us = 9007199254740992,
           max_us = 9007199254740992, calls = 3, sample_shape = []\<rparr>"
    by (simp add: record_interval_fl_def update_stat_fl_def stat_at_def KernelStat0_def fadd_53_def)
  have y: "foldl (record_interval_fl fadd_53) Map.empty [?one, ?one, ?big] ''A'' =
     Some \<lparr>total_us = 9007199254740994, self_us = 9007199254740994,
           max_us = 9007199254740992, calls = 3, sample_shape = []\<rparr>"
    by (simp add: record_interval_fl_def update_stat_fl_def stat_at_def KernelStat0_def fadd_53_def)
  have b: "\<bar>9007199254740992 - 9007199254740994 :: real\<bar> \<le>
     2 * ((1 + 1 / 9007199254740992) ^ 3 - 1) * (\<bar>0\<bar> + (9007199254740992 + 1 + 1))"
    using aggregation_order_independent [OF m, of fadd_53 Map.empty "''A''" "1 / 9007199254740992",
        THEN conjunct2, rule_format, OF x y, THEN conjunct2, THEN conjunct2, rule_format,
        OF rounds_within_fadd_53, THEN conjunct1]
    by (simp add: named_def stat_at_def KernelStat0_def power3_eq_cube)
  from m x y b rounds_within_fadd_53 show ?thesis by blast
qed

text \<open>
  C5. For a table with more than 30 entries, listed in any iteration order, and any
  sorting routine that keeps the promise of \<^verbatim>\<open>std::sort\<close>, the report has exactly 30 data
  rows: it is the title, the header and a rule, the rows of the first 30 sorted entries, a
  rule, and the total line, whose value is the sum of \<open>self_us\<close> over all entries of the
  table.
\<close>

theorem report_truncated_to_30_rows:
  assumes "std_sort_spec srt" and "entries_of stats entries" and "30 < card (dom stats)"
  shows "length (filter is_row (print_kernel_stats srt entries)) = 30 \<and>
     print_kernel_stats srt entries =
       [Text title_line, Text header_line, Text rule_line]
       @ map row_of (take 30 (srt by_total_desc entries))
       @ [Text rule_line, SelfTotal (\<Sum>k \<in> dom stats. self_us (stat_at stats k))]"
proof -
  have len: "30 < length entries"
    using assms(2,3) by (simp add: entries_of_card)
  then have ne: "entries \<noteq> []" by auto
  have "length (srt by_total_desc entries) = length entries"
    using assms(1) by (rule std_sort_spec_length)
  with len have rows: "length (filter is_row (print_kernel_stats srt entries)) = 30"
    by (simp add: rows_of_print[OF ne])
  have "sum_list (map (\<lambda>e. self_us (snd e)) entries) = (\<Sum>k \<in> dom stats. self_us (stat_at stats k))"
    using assms(2) entries_sum[of entries self_us] by (simp add: entries_of_def)
  with print_nonempty[OF assms(1) ne] rows show ?thesis by simp
qed

text \<open>
  An instance: the table of forty entries, sorted by insertion sort.
\<close>

theorem report_truncated_to_30_rows_witness:
  "length forty_entries = 40 \<and>
   length (filter is_row (print_kernel_stats insertion_sort forty_entries)) = 30 \<and>
   print_kernel_stats insertion_sort forty_entries =
       [Text title_line, Text header_line, Text rule_line]
       @ map row_of (take 30 (insertion_sort by_total_desc forty_entries))
       @ [Text rule_line,
          SelfTotal (\<Sum>k \<in> dom (map_of forty_entries). self_us (stat_at (map_of forty_entries) k))]"
proof -
  have e: "entries_of (map_of forty_entries) forty_entries"
    by (simp add: entries_of_def forty_distinct)
  have l: "length forty_entries = 40"
    by (simp add: forty_entries_def)
  have c: "30 < card (dom (map_of forty_entries))"
    using entries_of_card[OF e] l by simp
  from report_truncated_to_30_rows [OF std_sort_spec_insertion e c] l show ?thesis by blast
qed

text \<open>
  C6. The data rows of the report are in descending order of the total inclusive time,
  for every sorting routine that keeps the promise of \<^verbatim>\<open>std::sort\<close>: the direction comes
  from the comparator \<open>by_total_desc\<close> that \<open>print_kernel_stats\<close> passes to it. In particular, for a table of three entries \<open>a\<close>, \<open>b\<close>, \<open>c\<close> with the totals 100, 50
  and 200, listed in any iteration order, the rows are those of \<open>c\<close>, \<open>a\<close>, \<open>b\<close>.
\<close>

theorem report_rows_by_total_descending:
  assumes "std_sort_spec srt"
  shows "sorted_wrt (\<lambda>r1 r2. row_total r2 \<le> row_total r1)
       (filter is_row (print_kernel_stats srt entries)) \<and>
     (mset entries = mset [(a, sa), (b, sb), (c, sc)] \<longrightarrow>
      total_us sa = 100 \<longrightarrow> total_us sb = 50 \<longrightarrow> total_us sc = 200 \<longrightarrow>
        filter is_row (print_kernel_stats srt entries) =
          [row_of (c, sc), row_of (a, sa), row_of (b, sb)])"
proof (intro conjI impI)
  show "sorted_wrt (\<lambda>r1 r2. row_total r2 \<le> row_total r1)
       (filter is_row (print_kernel_stats srt entries))"
  proof (cases "entries = []")
    case True
    then show ?thesis by (simp add: print_kernel_stats_def)
  next
    case False
    have "total_desc (srt by_total_desc entries)"
      using assms by (rule std_sort_by_total)
    then have "sorted_wrt (\<lambda>l r. total_us (snd r) \<le> total_us (snd l))
        (take (min 30 (length (srt by_total_desc entries))) (srt by_total_desc entries))"
      unfolding total_desc_def by (rule sorted_wrt_take)
    then show ?thesis
      by (simp add: rows_of_print[OF False] sorted_wrt_map)
  qed
next
  assume m: "mset entries = mset [(a, sa), (b, sb), (c, sc)]"
    and t: "total_us sa = 100" "total_us sb = 50" "total_us sc = 200"
  from m have ne: "entries \<noteq> []" by auto
  have "mset (srt by_total_desc entries) = mset [(a, sa), (b, sb), (c, sc)]"
    "total_desc (srt by_total_desc entries)"
    using std_sort_by_total[OF assms, of entries] m by simp_all
  then have "srt by_total_desc entries = [(c, sc), (a, sa), (b, sb)]"
    using t by (rule three_sorted)
  then show "filter is_row (print_kernel_stats srt entries) =
          [row_of (c, sc), row_of (a, sa), row_of (b, sb)]"
    by (simp add: rows_of_print[OF ne])
qed

text \<open>
  An instance: the names \<open>A\<close>, \<open>B\<close>, \<open>C\<close> in this order, sorted by insertion sort.
\<close>

theorem report_rows_by_total_descending_witness:
  "filter is_row (print_kernel_stats insertion_sort
       [(''A'', KernelStat0\<lparr>total_us := 100, calls := 1\<rparr>),
        (''B'', KernelStat0\<lparr>total_us := 50, calls := 1\<rparr>),
        (''C'', KernelStat0\<lparr>total_us := 200, calls := 1\<rparr>)]) =
     [Row ''C'' 1 200 0 200 0 [], Row ''A'' 1 100 0 100 0 [], Row ''B'' 1 50 0 50 0 []]"
  using report_rows_by_total_descending [OF std_sort_spec_insertion, of
      "[(''A'', KernelStat0\<lparr>total_us := 100, calls := 1\<rparr>),
        (''B'', KernelStat0\<lparr>total_us := 50, calls := 1\<rparr>),
        (''C'', KernelStat0\<lparr>total_us := 200, calls := 1\<rparr>)]"
      "''A''" "KernelStat0\<lparr>total_us := 100, calls := 1\<rparr>"
      "''B''" "KernelStat0\<lparr>total_us := 50, calls := 1\<rparr>"
      "''C''" "KernelStat0\<lparr>total_us := 200, calls := 1\<rparr>"]
  by (simp add: row_of_def KernelStat0_def Let_def)

text \<open>
  C7. A \<^verbatim>\<open>PopRange\<close> event that arrives when the stack is empty is dropped: the loop
  continues with the events after it, and the stack, the closed intervals and the table
  at the end are those of the stream without this event. The stream \<open>Exit(X, 5)\<close> alone
  closes no interval and leaves the table as it was. The model has no error value: the
  code raises nothing on this path.
\<close>

theorem exit_on_empty_stack_dropped:
  "(kind e = PopRange \<longrightarrow> fst (resolve_loop stack pre) = [] \<longrightarrow>
      resolve_loop stack (pre @ e # post) = resolve_loop stack (pre @ post) \<and>
      thread_loop stack stats (pre @ e # post) = thread_loop stack stats (pre @ post)) \<and>
   resolve_thread [Exit x 5] = [] \<and>
   aggregate_kernel_stats [[Exit x 5]] stats = stats"
proof (intro conjI impI)
  assume pop: "kind e = PopRange" and emp: "fst (resolve_loop stack pre) = []"
  then show r: "resolve_loop stack (pre @ e # post) = resolve_loop stack (pre @ post)"
    by (simp add: resolve_loop_append)
  then show "thread_loop stack stats (pre @ e # post) = thread_loop stack stats (pre @ post)"
    by (simp add: thread_loop_resolve)
next
  show "resolve_thread [Exit x 5] = []"
    by (simp add: ev_simps)
  show "aggregate_kernel_stats [[Exit x 5]] stats = stats"
    by (simp add: aggregate_kernel_stats_def Exit_def)
qed

text \<open>
  An instance: \<open>Exit(X, 5)\<close> between a closed range \<open>A\<close> and a closed range \<open>B\<close>.
\<close>

theorem exit_on_empty_stack_dropped_witness:
  "kind (Exit ''X'' 5) = PopRange \<and>
   fst (resolve_loop [] [Enter ''A'' 0 [], Exit ''A'' 3]) = [] \<and>
   resolve_loop [] ([Enter ''A'' 0 [], Exit ''A'' 3] @ Exit ''X'' 5 # [Enter ''B'' 6 [], Exit ''B'' 8])
     = resolve_loop [] ([Enter ''A'' 0 [], Exit ''A'' 3] @ [Enter ''B'' 6 [], Exit ''B'' 8]) \<and>
   thread_loop [] Map.empty
       ([Enter ''A'' 0 [], Exit ''A'' 3] @ Exit ''X'' 5 # [Enter ''B'' 6 [], Exit ''B'' 8])
     = thread_loop [] Map.empty ([Enter ''A'' 0 [], Exit ''A'' 3] @ [Enter ''B'' 6 [], Exit ''B'' 8]) \<and>
   resolve_thread [Exit ''X'' 5] = [] \<and>
   aggregate_kernel_stats [[Exit ''X'' 5]] Map.empty = Map.empty"
proof -
  have k: "kind (Exit ''X'' 5) = PopRange"
    by (simp add: Exit_def)
  have s: "fst (resolve_loop [] [Enter ''A'' 0 [], Exit ''A'' 3]) = []"
    by (simp add: ev_simps)
  from exit_on_empty_stack_dropped [where e = "Exit ''X'' 5" and stack = "[]"
      and pre = "[Enter ''A'' 0 [], Exit ''A'' 3]" and post = "[Enter ''B'' 6 [], Exit ''B'' 8]"
      and stats = Map.empty and x = "''X''"] k s
  show ?thesis by blast
qed

text \<open>
  C8. A \<^verbatim>\<open>PushRange\<close> event \<open>e\<close> that the events after it do not close is still on the
  stack at the end of the stream, and the closed intervals and the table are those of the
  stream without \<open>e\<close>. Every \<^verbatim>\<open>PushRange\<close> event of a thread is either closed into one
  interval or left on the final stack, which the code discards: the table is the fold of
  the closed intervals alone. The stream \<open>Enter(X, 0)\<close> alone closes no interval and leaves
  the table as it was.
\<close>

theorem unmatched_enter_dropped:
  "(kind e = PushRange \<longrightarrow> stays_open 0 post \<longrightarrow>
      (\<exists>upper. map start (fst (resolve_loop stack (pre @ e # post))) =
          upper @ e # map start (fst (resolve_loop stack pre))) \<and>
      snd (resolve_loop stack (pre @ e # post)) = snd (resolve_loop stack (pre @ post)) \<and>
      snd (thread_loop stack stats (pre @ e # post)) = snd (thread_loop stack stats (pre @ post))) \<and>
   length (resolve_thread events) + length (fst (resolve_loop [] events)) =
     length (filter (\<lambda>ev. kind ev = PushRange) events) \<and>
   aggregate_kernel_stats event_lists stats =
     foldl record_interval stats (concat (map resolve_thread event_lists)) \<and>
   resolve_thread [Enter x 0 shp] = [] \<and>
   aggregate_kernel_stats [[Enter x 0 shp]] stats = stats"
proof (intro conjI impI)
  assume push: "kind e = PushRange" and open0: "stays_open 0 post"
  let ?s = "fst (resolve_loop stack pre)"
  have o: "stays_open (length ([] :: ActiveRange list)) post"
    using open0 by simp
  from stays_open_stack[OF o, of "\<lparr>start = e, child_time_us = 0\<rparr> # ?s"]
  show "\<exists>upper. map start (fst (resolve_loop stack (pre @ e # post))) = upper @ e # map start ?s"
    using push by (simp add: resolve_loop_append)
  from resolve_loop_local[OF o, of "\<lparr>start = e, child_time_us = 0\<rparr> # ?s" ?s]
  show r: "snd (resolve_loop stack (pre @ e # post)) = snd (resolve_loop stack (pre @ post))"
    using push by (simp add: resolve_loop_append)
  then show "snd (thread_loop stack stats (pre @ e # post)) = snd (thread_loop stack stats (pre @ post))"
    by (simp add: thread_loop_resolve)
next
  show "length (resolve_thread events) + length (fst (resolve_loop [] events)) =
     length (filter (\<lambda>ev. kind ev = PushRange) events)"
    using resolve_loop_count[of "[]" events] by (simp add: resolve_thread_def)
  show "aggregate_kernel_stats event_lists stats =
     foldl record_interval stats (concat (map resolve_thread event_lists))"
    by (rule aggregate_resolve)
  show "resolve_thread [Enter x 0 shp] = []"
    by (simp add: ev_simps)
  show "aggregate_kernel_stats [[Enter x 0 shp]] stats = stats"
    by (simp add: aggregate_kernel_stats_def Enter_def)
qed

text \<open>
  An instance: \<open>Enter(X, 1)\<close>, never closed, after \<open>Enter(A, 0)\<close> and before a closed
  range \<open>B\<close>.
\<close>

theorem unmatched_enter_dropped_witness:
  "kind (Enter ''X'' 1 [[4]]) = PushRange \<and>
   stays_open 0 [Enter ''B'' 6 [], Exit ''B'' 8] \<and>
   map start (fst (resolve_loop []
       ([Enter ''A'' 0 []] @ Enter ''X'' 1 [[4]] # [Enter ''B'' 6 [], Exit ''B'' 8]))) =
     [Enter ''X'' 1 [[4]], Enter ''A'' 0 []] \<and>
   snd (resolve_loop [] ([Enter ''A'' 0 []] @ Enter ''X'' 1 [[4]] # [Enter ''B'' 6 [], Exit ''B'' 8]))
     = snd (resolve_loop [] ([Enter ''A'' 0 []] @ [Enter ''B'' 6 [], Exit ''B'' 8])) \<and>
   snd (thread_loop [] Map.empty
       ([Enter ''A'' 0 []] @ Enter ''X'' 1 [[4]] # [Enter ''B'' 6 [], Exit ''B'' 8]))
     = snd (thread_loop [] Map.empty ([Enter ''A'' 0 []] @ [Enter ''B'' 6 [], Exit ''B'' 8])) \<and>
   resolve_thread [Enter ''X'' 0 [[4]]] = [] \<and>
   aggregate_kernel_stats [[Enter ''X'' 0 [[4]]]] Map.empty = Map.empty"
proof -
  have k: "kind (Enter ''X'' 1 [[4]]) = PushRange"
    by (simp add: Enter_def)
  have s: "stays_open 0 [Enter ''B'' 6 [], Exit ''B'' 8]"
    by (simp add: Enter_def Exit_def)
  have m: "map start (fst (resolve_loop []
       ([Enter ''A'' 0 []] @ Enter ''X'' 1 [[4]] # [Enter ''B'' 6 [], Exit ''B'' 8]))) =
     [Enter ''X'' 1 [[4]], Enter ''A'' 0 []]"
    by (simp add: ev_simps)
  from unmatched_enter_dropped [where e = "Enter ''X'' 1 [[4]]"
      and post = "[Enter ''B'' 6 [], Exit ''B'' 8]" and stack = "[]" and pre = "[Enter ''A'' 0 []]"
      and stats = Map.empty and events = "[]" and event_lists = "[]" and x = "''X''"
      and shp = "[[4]]"] k s m
  show ?thesis by blast
qed

text \<open>
  C9. For the empty table the report is the single line \<open>No profiler events collected.\<close>:
  no title, header, rule, row or total line. And when no thread has an event, the table
  computed from the empty table is empty.
\<close>

theorem no_events_report:
  "(entries_of Map.empty entries \<longrightarrow>
      print_kernel_stats srt entries = [Text ''No profiler events collected.'']) \<and>
   ((\<forall>thread_events \<in> set event_lists. thread_events = []) \<longrightarrow>
      aggregate_kernel_stats event_lists Map.empty = Map.empty)"
proof (intro conjI impI)
  assume "entries_of Map.empty entries"
  then have "entries = []"
    by (cases entries) (auto simp: entries_of_def)
  then show "print_kernel_stats srt entries = [Text ''No profiler events collected.'']"
    by (simp add: print_kernel_stats_def)
next
  assume "\<forall>thread_events \<in> set event_lists. thread_events = []"
  then have c: "concat (map resolve_thread event_lists) = []"
    by (induction event_lists) (simp_all add: resolve_thread_def)
  show "aggregate_kernel_stats event_lists Map.empty = Map.empty"
    unfolding aggregate_resolve c by simp
qed

text \<open>
  An instance: two threads without events.
\<close>

theorem no_events_report_witness:
  "entries_of Map.empty [] \<and>
   print_kernel_stats insertion_sort [] = [Text ''No profiler events collected.''] \<and>
   aggregate_kernel_stats [[], []] Map.empty = Map.empty"
proof -
  have e: "entries_of Map.empty []"
    by (simp add: entries_of_def)
  have a: "\<forall>thread_events \<in> set [[], [] :: LegacyEvent list]. thread_events = []"
    by simp
  from no_events_report [where entries = "[]" and srt = insertion_sort
      and event_lists = "[[], []]"] e a
  show ?thesis by blast
qed

text \<open>
  C10. Every interval closed on a thread has \<open>0 \<le> exclusive_us \<le> inclusive_us\<close>, and
  every entry of the table computed from the empty table has \<open>self_us \<le> total_us\<close> and
  \<open>max_us \<le> total_us\<close>.
\<close>

theorem exclusive_within_inclusive:
  "(\<forall>iv \<in> set (resolve_thread events).
       0 \<le> exclusive_us iv \<and> exclusive_us iv \<le> inclusive_us iv) \<and>
   (\<forall>k s. aggregate_kernel_stats event_lists Map.empty k = Some s \<longrightarrow>
       self_us s \<le> total_us s \<and> max_us s \<le> total_us s)"
proof (intro conjI ballI allI impI)
  fix iv assume "iv \<in> set (resolve_thread events)"
  then have "interval_ok iv" by (rule resolve_thread_ok)
  then show "0 \<le> exclusive_us iv" "exclusive_us iv \<le> inclusive_us iv"
    by (simp_all add: interval_ok_def)
next
  fix k s
  assume "aggregate_kernel_stats event_lists Map.empty k = Some s"
  let ?ivs = "concat (map resolve_thread event_lists)"
  have s: "s = foldl update_stat KernelStat0 (filter (\<lambda>iv. iv_name iv = k) ?ivs)"
    using \<open>aggregate_kernel_stats event_lists Map.empty k = Some s\<close>
      stat_at_foldl[of Map.empty ?ivs k]
    by (simp add: aggregate_resolve stat_at_Some) (simp add: stat_at_def)
  have "\<forall>iv \<in> set (filter (\<lambda>iv. iv_name iv = k) ?ivs). interval_ok iv"
    by (auto intro: resolve_thread_ok)
  moreover have "stat_ok KernelStat0"
    by (simp add: stat_ok_def KernelStat0_def)
  ultimately have "stat_ok s"
    unfolding s by (intro stat_ok_foldl)
  then show "self_us s \<le> total_us s" "max_us s \<le> total_us s"
    by (simp_all add: stat_ok_def)
qed

text \<open>
  An instance: a range \<open>B\<close> nested in a range \<open>A\<close>.
\<close>

theorem exclusive_within_inclusive_witness:
  "resolve_thread [Enter ''A'' 0 [], Enter ''B'' 10 [], Exit ''B'' 30, Exit ''A'' 50] =
     [\<lparr>iv_name = ''B'', iv_shape = [], inclusive_us = 20, exclusive_us = 20\<rparr>,
      \<lparr>iv_name = ''A'', iv_shape = [], inclusive_us = 50, exclusive_us = 30\<rparr>] \<and>
   aggregate_kernel_stats [[Enter ''A'' 0 [], Enter ''B'' 10 [], Exit ''B'' 30, Exit ''A'' 50]]
       Map.empty ''A''
     = Some \<lparr>total_us = 50, self_us = 30, max_us = 50, calls = 1, sample_shape = []\<rparr> \<and>
   self_us \<lparr>total_us = 50, self_us = 30, max_us = 50, calls = 1, sample_shape = []\<rparr>
     \<le> total_us \<lparr>total_us = 50, self_us = 30, max_us = 50, calls = 1, sample_shape = []\<rparr> \<and>
   max_us \<lparr>total_us = 50, self_us = 30, max_us = 50, calls = 1, sample_shape = []\<rparr>
     \<le> total_us \<lparr>total_us = 50, self_us = 30, max_us = 50, calls = 1, sample_shape = []\<rparr>"
  using exclusive_within_inclusive [of
      "[Enter ''A'' 0 [], Enter ''B'' 10 [], Exit ''B'' 30, Exit ''A'' 50]"
      "[[Enter ''A'' 0 [], Enter ''B'' 10 [], Exit ''B'' 30, Exit ''A'' 50]]"]
  by (simp add: ev_simps table_simps format_shape_def)

end
